theory Spec2Isabelle
  imports Complex_Main "HOL-Library.Signed_Division" "HOL-Library.Sublist"
begin

section \<open>Playlist navigation of the MusicPlayer component\<close>

text \<open>
  \<^verbatim>\<open>src/components/MusicPlayer.js\<close> receives the props \<open>currentTrack\<close>, \<open>playlist\<close> and
  \<open>onTrackChange\<close>. A track is an object with an \<open>id\<close> (a number, \<open>Date.now()\<close> in
  \<open>addTrack\<close>), a \<open>name\<close>, an optional \<open>artist\<close> and a \<open>url\<close>. The field names carry the
  prefix \<open>track_\<close> because \<open>id\<close> is a constant of HOL.
\<close>

record track =
  track_id :: nat
  track_name :: string
  track_artist :: "string option"
  track_url :: string

text \<open>
  \<open>Array.prototype.findIndex\<close>: the index of the first element that satisfies the
  predicate, scanning from index 0, and \<open>-1\<close> when there is none.
\<close>

fun findIndex_from :: "('a \<Rightarrow> bool) \<Rightarrow> 'a list \<Rightarrow> int \<Rightarrow> int" where
  "findIndex_from P [] i = - 1"
| "findIndex_from P (x # xs) i = (if P x then i else findIndex_from P xs (i + 1))"

definition findIndex :: "('a \<Rightarrow> bool) \<Rightarrow> 'a list \<Rightarrow> int" where
  "findIndex P xs = findIndex_from P xs 0"

text \<open>
  \<open>arr[i]\<close> for a number \<open>i\<close>: the element when \<open>0 \<le> i < arr.length\<close>, and
  \<open>undefined\<close> (here \<open>None\<close>) otherwise; JavaScript does not raise and does not count
  negative indices from the end.
\<close>

definition js_index :: "'a list \<Rightarrow> int \<Rightarrow> 'a option" where
  "js_index xs i = (if 0 \<le> i \<and> i < int (length xs) then Some (xs ! nat i) else None)"

text \<open>
  The callback \<open>track => track.id === currentTrack?.id\<close>. When \<open>currentTrack\<close> is null or
  undefined, \<open>currentTrack?.id\<close> is \<open>undefined\<close>, which is strictly equal to no number.
\<close>

definition id_matches :: "track option \<Rightarrow> track \<Rightarrow> bool" where
  "id_matches currentTrack t =
     (case currentTrack of None \<Rightarrow> False | Some c \<Rightarrow> track_id t = track_id c)"

text \<open>
  What a navigation handler does with the prop \<open>onTrackChange\<close>: it returns without
  calling it, or it calls it once; the argument is \<open>None\<close> when the handler passes
  \<open>undefined\<close>. The handlers have no other result: there is no error value and nothing is
  thrown.
\<close>

datatype call = NoCall | OnTrackChange "track option"

text \<open>
  \<open>handleNext\<close> (lines 78 to 84) and \<open>handlePrevious\<close> (lines 86 to 92). The prop
  \<open>playlist\<close> may be null or undefined (\<open>None\<close>). The operator \<open>%\<close> of JavaScript is the
  remainder whose sign follows the dividend, \<open>smod\<close> on \<open>int\<close>.
\<close>

definition handleNext :: "track list option \<Rightarrow> track option \<Rightarrow> call" where
  "handleNext playlist currentTrack =
     (case playlist of
        None \<Rightarrow> NoCall
      | Some pl \<Rightarrow>
          if length pl = 0 then NoCall
          else
            let currentIndex = findIndex (id_matches currentTrack) pl;
                nextIndex = (currentIndex + 1) smod int (length pl)
            in OnTrackChange (js_index pl nextIndex))"

definition handlePrevious :: "track list option \<Rightarrow> track option \<Rightarrow> call" where
  "handlePrevious playlist currentTrack =
     (case playlist of
        None \<Rightarrow> NoCall
      | Some pl \<Rightarrow>
          if length pl = 0 then NoCall
          else
            let currentIndex = findIndex (id_matches currentTrack) pl;
                prevIndex = (if currentIndex = 0 then int (length pl) - 1 else currentIndex - 1)
            in OnTrackChange (js_index pl prevIndex))"

text \<open>
  Modelled from the spec: the parent component that owns \<open>currentTrack\<close> and passes
  \<open>onTrackChange\<close> is not among the sources. Following the spec's \<open>loadTrack(record)\<close>,
  which binds the record it is given, the callback makes its argument the current
  track; a handler that does not call it leaves the current track as it is.
\<close>

definition apply_call :: "call \<Rightarrow> track option \<Rightarrow> track option" where
  "apply_call c currentTrack = (case c of NoCall \<Rightarrow> currentTrack | OnTrackChange t \<Rightarrow> t)"

definition next_track :: "track list option \<Rightarrow> track option \<Rightarrow> track option" where
  "next_track playlist currentTrack = apply_call (handleNext playlist currentTrack) currentTrack"

definition previous_track :: "track list option \<Rightarrow> track option \<Rightarrow> track option" where
  "previous_track playlist currentTrack =
     apply_call (handlePrevious playlist currentTrack) currentTrack"

definition activeTrackId :: "track option \<Rightarrow> nat option" where
  "activeTrackId currentTrack = map_option track_id currentTrack"

text \<open>The tracks \<open>A\<close>, \<open>B\<close>, \<open>C\<close> of the spec's scenario, and a track \<open>X\<close> outside it.\<close>

definition trackA :: track where
  "trackA = \<lparr>track_id = 1, track_name = ''A'', track_artist = None, track_url = ''blob:a''\<rparr>"

definition trackB :: track where
  "trackB = \<lparr>track_id = 2, track_name = ''B'', track_artist = None, track_url = ''blob:b''\<rparr>"

definition trackC :: track where
  "trackC = \<lparr>track_id = 3, track_name = ''C'', track_artist = None, track_url = ''blob:c''\<rparr>"

definition trackX :: track where
  "trackX = \<lparr>track_id = 9, track_name = ''X'', track_artist = None, track_url = ''blob:x''\<rparr>"

section \<open>State of the MusicPlayer component: seek, volume, mute, natural end\<close>

text \<open>
  The \<open>audio\<close> element behind \<open>audioRef\<close>, as far as the component writes it, and the
  rectangle that \<open>progressRef.current.getBoundingClientRect()\<close> returns. JavaScript
  numbers are modelled as real numbers: \<open>NaN\<close>, the infinities and rounding are outside
  the model.
\<close>

record audio_el =
  el_currentTime :: real
  el_volume :: real
  el_paused :: bool

record rect =
  rect_left :: real
  rect_width :: real

text \<open>
  The five \<open>useState\<close> cells and the two refs of the component (lines 10 to 16); a ref
  whose \<open>current\<close> is null is \<open>None\<close>.
\<close>

record player =
  isPlaying :: bool
  currentTime :: real
  duration :: real
  volume :: real
  isMuted :: bool
  audioRef :: "audio_el option"
  progressRef :: "rect option"

text \<open>
  \<open>handleProgressClick\<close> (lines 57 to 66); the argument is \<open>e.clientX\<close>. Where
  \<open>rect.width\<close> is 0 JavaScript divides to \<open>NaN\<close> or an infinity and HOL to 0, so the
  theorems below speak of a positive width only.
\<close>

definition handleProgressClick :: "player \<Rightarrow> real \<Rightarrow> player" where
  "handleProgressClick s clientX =
     (case audioRef s of
        None \<Rightarrow> s
      | Some a \<Rightarrow>
          (case progressRef s of
             None \<Rightarrow> s
           | Some r \<Rightarrow>
               let clickX = clientX - rect_left r;
                   newTime = (clickX / rect_width r) * duration s
               in s\<lparr>audioRef := Some (a\<lparr>el_currentTime := newTime\<rparr>), currentTime := newTime\<rparr>))"

text \<open>
  \<open>handleVolumeChange\<close> (lines 68 to 72); the argument is \<open>parseFloat(e.target.value)\<close>.
\<close>

definition handleVolumeChange :: "player \<Rightarrow> real \<Rightarrow> player" where
  "handleVolumeChange s newVolume = s\<lparr>volume := newVolume, isMuted := (newVolume = 0)\<rparr>"

text \<open>\<open>toggleMute\<close> (lines 74 to 76).\<close>

definition toggleMute :: "player \<Rightarrow> player" where
  "toggleMute s = s\<lparr>isMuted := \<not> isMuted s\<rparr>"

text \<open>
  The effect of lines 40 to 44, \<open>audioRef.current.volume = isMuted ? 0 : volume\<close>, and its
  dependency list \<open>[volume, isMuted]\<close>: after a render React runs the effect when one of
  the two differs from its value at the previous render.
\<close>

definition volumeEffect :: "player \<Rightarrow> player" where
  "volumeEffect s =
     (case audioRef s of
        None \<Rightarrow> s
      | Some a \<Rightarrow> s\<lparr>audioRef := Some (a\<lparr>el_volume := (if isMuted s then 0 else volume s)\<rparr>)\<rparr>)"

definition rerender :: "player \<Rightarrow> player \<Rightarrow> player" where
  "rerender prev s =
     (if volume s = volume prev \<and> isMuted s = isMuted prev then s else volumeEffect s)"

text \<open>
  A render after the prop \<open>currentTrack\<close> has changed (lines 101 to 117). Without a track
  the component returns the placeholder card: the audio element and the bar are
  unmounted and React sets both refs to null. With a track it renders them; when none
  was mounted they are new elements, and a new audio element has the defaults of a
  media element: volume 1, paused, at position 0. \<open>bar\<close> is the rectangle of the new bar.
  The render changes neither \<open>volume\<close> nor \<open>isMuted\<close>, the dependency list of the volume
  effect.
\<close>

definition fresh_audio :: audio_el where
  "fresh_audio = \<lparr>el_currentTime = 0, el_volume = 1, el_paused = True\<rparr>"

definition track_changed :: "track option \<Rightarrow> rect \<Rightarrow> player \<Rightarrow> player" where
  "track_changed currentTrack bar s =
     rerender s
       (case currentTrack of
          None \<Rightarrow> s\<lparr>audioRef := None, progressRef := None\<rparr>
        | Some t \<Rightarrow>
            (case audioRef s of
               None \<Rightarrow> s\<lparr>audioRef := Some fresh_audio, progressRef := Some bar\<rparr>
             | Some a \<Rightarrow> s))"

text \<open>The volume the audio element plays at; \<open>None\<close> when no element is mounted.\<close>

definition outputVolume :: "player \<Rightarrow> real option" where
  "outputVolume s = map_option el_volume (audioRef s)"

text \<open>
  The state is in step when the element's volume is what the effect last wrote for the
  present \<open>volume\<close> and \<open>isMuted\<close>.
\<close>

definition volume_synced :: "player \<Rightarrow> bool" where
  "volume_synced s =
     (case audioRef s of
        None \<Rightarrow> True
      | Some a \<Rightarrow> el_volume a = (if isMuted s then 0 else volume s))"

text \<open>A user action followed by the render it causes.\<close>

definition setVolume_step :: "player \<Rightarrow> real \<Rightarrow> player" where
  "setVolume_step s v = rerender s (handleVolumeChange s v)"

definition toggleMute_step :: "player \<Rightarrow> player" where
  "toggleMute_step s = rerender s (toggleMute s)"

text \<open>The spec's \<open>clamp(v, lo, hi)\<close>.\<close>

definition clamp :: "real \<Rightarrow> real \<Rightarrow> real \<Rightarrow> real" where
  "clamp v lo hi = min (max v lo) hi"

text \<open>
  \<open>handleEnded\<close> (lines 24 to 27), the listener of the element's \<open>ended\<close> event:
  \<open>setIsPlaying(false)\<close>, then \<open>handleNext()\<close>. The listener is registered again whenever
  \<open>currentTrack\<close> changes, and \<open>playlist\<close> and \<open>currentTrack\<close> are the props of that render.
  The result is the new component state and what \<open>handleNext\<close> did with \<open>onTrackChange\<close>.
\<close>

definition handleEnded :: "track list option \<Rightarrow> track option \<Rightarrow> player \<Rightarrow> player \<times> call" where
  "handleEnded playlist currentTrack s =
     (s\<lparr>isPlaying := False\<rparr>, handleNext playlist currentTrack)"

definition player0 :: player where
  "player0 = \<lparr>isPlaying = False, currentTime = 0, duration = 0, volume = 1, isMuted = False,
     audioRef = Some \<lparr>el_currentTime = 0, el_volume = 1, el_paused = True\<rparr>,
     progressRef = Some \<lparr>rect_left = 0, rect_width = 100\<rparr>\<rparr>"

section \<open>The sampling loop of the page component\<close>

text \<open>
  The page component \<open>Home\<close> (in \<^verbatim>\<open>src/hooks/useLocalStorage.js\<close>, lines 350 to 655) keeps
  its own audio element, analyser and per-frame loop. The browser's frame callbacks
  are modelled by the list of handles that \<open>requestAnimationFrame\<close> has returned and that
  have neither run nor been cancelled; in this component every scheduled callback is
  \<open>updateAudioData\<close>. Handles are positive integers, counted up from \<open>raf_next\<close>.
\<close>

record song =
  song_id :: nat
  song_name :: string
  song_url :: string

record home_audio =
  ha_src :: string
  ha_paused :: bool
  ha_currentTime :: real

text \<open>
  \<open>animationId_current\<close> is \<open>animationIdRef.current\<close>; \<open>animationId_useRef\<close> is the property
  \<open>animationIdRef.useRef\<close> that line 418 assigns. \<open>analyserRef\<close> says whether
  \<open>analyserRef.current\<close> is set, and \<open>dataArrayRef\<close> holds the byte array once it is allocated.
\<close>

record home =
  h_currentSong :: "song option"
  h_isPlaying :: bool
  h_currentTime :: real
  h_audioData :: "nat list"
  h_audioRef :: "home_audio option"
  audioContextRef :: bool
  analyserRef :: bool
  dataArrayRef :: "nat list option"
  animationId_current :: "nat option"
  animationId_useRef :: "nat option"
  raf_pending :: "nat list"
  raf_next :: nat

definition requestAnimationFrame :: "home \<Rightarrow> nat \<times> home" where
  "requestAnimationFrame s =
     (raf_next s, s\<lparr>raf_pending := raf_pending s @ [raf_next s], raf_next := raf_next s + 1\<rparr>)"

definition cancelAnimationFrame :: "home \<Rightarrow> nat \<Rightarrow> home" where
  "cancelAnimationFrame s h = s\<lparr>raf_pending := filter (\<lambda>h'. h' \<noteq> h) (raf_pending s)\<rparr>"

text \<open>
  \<open>initializeAudioContext\<close> (lines 400 to 412); \<open>frequencyBinCount\<close> is half of
  \<open>fftSize = 256\<close>, and a new \<open>Uint8Array\<close> is filled with zeros.
\<close>

definition initializeAudioContext :: "home \<Rightarrow> home" where
  "initializeAudioContext s =
     (if \<not> audioContextRef s \<and> h_audioRef s \<noteq> None
      then s\<lparr>audioContextRef := True, analyserRef := True, dataArrayRef := Some (replicate 128 0)\<rparr>
      else s)"

text \<open>
  \<open>updateAudioData\<close> (lines 414 to 420). \<open>sample\<close> is what \<open>getByteFrequencyData\<close> writes
  into the array at this call, an input from the analyser.
\<close>

definition updateAudioData :: "nat list \<Rightarrow> home \<Rightarrow> home" where
  "updateAudioData sample s =
     (if analyserRef s \<and> dataArrayRef s \<noteq> None
      then
        let s1 = s\<lparr>dataArrayRef := Some sample\<rparr>;
            s2 = s1\<lparr>h_audioData := sample\<rparr>;
            (h, s3) = requestAnimationFrame s2
        in s3\<lparr>animationId_useRef := Some h\<rparr>
      else s)"

text \<open>
  \<open>pauseSong\<close> (lines 439 to 447). \<open>if (animationIdRef.current)\<close> holds for a handle that is
  neither null nor 0.
\<close>

definition pauseSong :: "home \<Rightarrow> home" where
  "pauseSong s =
     (case h_audioRef s of
        None \<Rightarrow> s
      | Some a \<Rightarrow>
          let s1 = s\<lparr>h_audioRef := Some (a\<lparr>ha_paused := True\<rparr>)\<rparr>;
              s2 = s1\<lparr>h_isPlaying := False\<rparr>
          in (case animationId_current s2 of
                None \<Rightarrow> s2
              | Some h \<Rightarrow> if h = 0 then s2 else cancelAnimationFrame s2 h))"

text \<open>\<open>playSong\<close> (lines 422 to 437).\<close>

definition playSong :: "nat list \<Rightarrow> song \<Rightarrow> home \<Rightarrow> home" where
  "playSong sample sg s =
     (if map_option song_id (h_currentSong s) = Some (song_id sg) \<and> h_isPlaying s
      then pauseSong s
      else
        let s1 = s\<lparr>h_currentSong := Some sg\<rparr>
        in (case h_audioRef s1 of
              None \<Rightarrow> s1
            | Some a \<Rightarrow>
                let s2 = s1\<lparr>h_audioRef := Some (a\<lparr>ha_src := song_url sg, ha_paused := False\<rparr>)\<rparr>;
                    s3 = s2\<lparr>h_isPlaying := True\<rparr>;
                    s4 = initializeAudioContext s3
                in updateAudioData sample s4))"

text \<open>\<open>handleTimeUpdate\<close> (lines 449 to 453), the listener of the element's \<open>timeupdate\<close>.\<close>

definition handleTimeUpdate :: "home \<Rightarrow> home" where
  "handleTimeUpdate s =
     (case h_audioRef s of None \<Rightarrow> s | Some a \<Rightarrow> s\<lparr>h_currentTime := ha_currentTime a\<rparr>)"

text \<open>
  A display refresh, the sampling tick: the browser takes the callbacks that are
  pending when the frame begins and runs each of them; what they schedule waits for
  the next frame.
\<close>

definition frame :: "nat list \<Rightarrow> home \<Rightarrow> home" where
  "frame sample s =
     fold (\<lambda>h st. updateAudioData sample st) (raf_pending s) (s\<lparr>raf_pending := []\<rparr>)"

definition home0 :: home where
  "home0 = \<lparr>h_currentSong = None, h_isPlaying = False, h_currentTime = 0, h_audioData = [],
     h_audioRef = Some \<lparr>ha_src = [], ha_paused = True, ha_currentTime = 0\<rparr>,
     audioContextRef = False, analyserRef = False, dataArrayRef = None,
     animationId_current = None, animationId_useRef = None, raf_pending = [], raf_next = 1\<rparr>"

definition song1 :: song where
  "song1 = \<lparr>song_id = 7, song_name = ''tune'', song_url = ''blob:tune''\<rparr>"

section \<open>The sampling loop of the AudioVisualizer component\<close>

text \<open>
  \<open>AudioVisualizer\<close> (in \<^verbatim>\<open>src/components/FileUpload.js\<close>, lines 157 to 313) draws in its own
  frame loop. \<open>v_cleanup\<close> records whether the last run of the effect of lines 210 to 263
  returned its cleanup function (the early return of line 215 returns none);
  \<open>v_drawn\<close> is the sample of the last \<open>draw\<close>.
\<close>

record visualizer =
  v_isInitialized :: bool
  v_canvas :: bool
  v_analyser :: bool
  v_dataArray :: "nat list option"
  v_animationId :: "nat option"
  v_pending :: "nat list"
  v_next :: nat
  v_cleanup :: bool
  v_drawn :: "nat list"

definition v_cancel_current :: "visualizer \<Rightarrow> visualizer" where
  "v_cancel_current s =
     (case v_animationId s of
        None \<Rightarrow> s
      | Some h \<Rightarrow> if h = 0 then s else s\<lparr>v_pending := filter (\<lambda>h'. h' \<noteq> h) (v_pending s)\<rparr>)"

text \<open>\<open>draw\<close> (lines 222 to 254).\<close>

definition draw :: "nat list \<Rightarrow> visualizer \<Rightarrow> visualizer" where
  "draw sample s =
     (if \<not> v_analyser s \<or> v_dataArray s = None then s
      else s\<lparr>v_dataArray := Some sample, v_drawn := sample,
             v_animationId := Some (v_next s),
             v_pending := v_pending s @ [v_next s], v_next := v_next s + 1\<rparr>)"

text \<open>The body of the effect, run with the prop \<open>isPlaying\<close>, and its cleanup.\<close>

definition sampling_effect :: "nat list \<Rightarrow> bool \<Rightarrow> visualizer \<Rightarrow> visualizer" where
  "sampling_effect sample playing s =
     (if \<not> v_isInitialized s \<or> \<not> playing \<or> \<not> v_canvas s \<or> \<not> v_analyser s
      then (v_cancel_current s)\<lparr>v_cleanup := False\<rparr>
      else (draw sample s)\<lparr>v_cleanup := True\<rparr>)"

definition effect_cleanup :: "visualizer \<Rightarrow> visualizer" where
  "effect_cleanup s = (if v_cleanup s then v_cancel_current s else s)"

text \<open>
  A render in which the prop \<open>isPlaying\<close> has changed: React runs the cleanup of the
  previous run, then the effect.
\<close>

definition isPlaying_changed :: "nat list \<Rightarrow> bool \<Rightarrow> visualizer \<Rightarrow> visualizer" where
  "isPlaying_changed sample playing s = sampling_effect sample playing (effect_cleanup s)"

definition v_frame :: "nat list \<Rightarrow> visualizer \<Rightarrow> visualizer" where
  "v_frame sample s = fold (\<lambda>h st. draw sample st) (v_pending s) (s\<lparr>v_pending := []\<rparr>)"

text \<open>
  While the loop runs, the one pending callback is the one whose handle
  \<open>animationIdRef.current\<close> holds.
\<close>

definition loop_tracked :: "visualizer \<Rightarrow> bool" where
  "loop_tracked s =
     (v_cleanup s \<and> 0 < v_next s \<and>
      (case v_animationId s of
         None \<Rightarrow> v_pending s = []
       | Some h \<Rightarrow> h \<noteq> 0 \<and> h < v_next s \<and> (v_pending s = [] \<or> v_pending s = [h])))"

section \<open>Upload validation\<close>

text \<open>
  A \<open>File\<close> as the validators read it: its MIME type, its name and its size in bytes.
  \<open>String.prototype.includes\<close> is \<open>sublist\<close>, \<open>endsWith\<close> is \<open>suffix\<close>; \<open>toLowerCase\<close> is
  modelled on the ASCII letters, the characters that decide a match with \<open>.mp3\<close>.
\<close>

record upload_file =
  file_type :: string
  file_name :: string
  file_size :: nat

definition toLowerCase :: "string \<Rightarrow> string" where
  "toLowerCase s =
     map (\<lambda>c. let n = (of_char c :: nat) in if 65 \<le> n \<and> n \<le> 90 then char_of (n + 32) else c) s"

text \<open>
  \<open>handleFileSelect\<close> (\<^verbatim>\<open>src/components/FileUpload.js\<close>, lines 10 to 28). The result is the
  final \<open>uploadError\<close> (the empty string is no error) and the file passed to
  \<open>onFileUpload\<close>, if it was called.
\<close>

record select_result =
  uploadError :: string
  onFileUpload :: "upload_file option"

definition handleFileSelect :: "upload_file option \<Rightarrow> select_result" where
  "handleFileSelect fileArg =
     (case fileArg of
        None \<Rightarrow> \<lparr>uploadError = [], onFileUpload = None\<rparr>
      | Some f \<Rightarrow>
          if \<not> sublist ''audio/mpeg'' (file_type f) \<and> \<not> suffix ''.mp3'' (toLowerCase (file_name f))
          then \<lparr>uploadError = ''Please select an MP3 file only'', onFileUpload = None\<rparr>
          else if file_size f > 50 * 1024 * 1024
          then \<lparr>uploadError = ''File size must be less than 50MB'', onFileUpload = None\<rparr>
          else \<lparr>uploadError = [], onFileUpload = Some f\<rparr>)"

text \<open>\<open>isValidMP3File\<close> (\<^verbatim>\<open>src/hooks/useLocalStorage.js\<close>, lines 100 to 116).\<close>

definition validTypes :: "string list" where
  "validTypes = [''audio/mp3'', ''audio/mpeg'', ''audio/mpeg3'']"

definition maxSize :: nat where
  "maxSize = 50 * 1024 * 1024"

definition isValidMP3File :: "upload_file option \<Rightarrow> bool" where
  "isValidMP3File fileArg =
     (case fileArg of
        None \<Rightarrow> False
      | Some f \<Rightarrow>
          if file_type f \<notin> set validTypes then False
          else if \<not> suffix ''.mp3'' (toLowerCase (file_name f)) then False
          else if file_size f > maxSize then False
          else True)"

definition bigFile :: upload_file where
  "bigFile = \<lparr>file_type = ''audio/mpeg'', file_name = ''Song.MP3'', file_size = 52428801\<rparr>"

section \<open>Saved tracks in localStorage\<close>

text \<open>
  The value parsed from a stored string, as far as \<open>getAllSavedTracks\<close> and
  \<open>clearOldAudioData\<close> look at it: \<open>null\<close>; another falsy value (\<open>false\<close>, \<open>0\<close>, the empty
  string); or a truthy value, with its own property \<open>key\<close> when it has one (as the
  string \<open>removeItem\<close> is called with) and its property \<open>timestamp\<close> when it has one.
  Timestamps are integers, as \<open>Date.now()\<close> gives them; a \<open>timestamp\<close> that is not a number
  is outside the model.
\<close>

datatype js_data = JNull | JFalsy | JObject "string option" "int option"

text \<open>
  A stored string, by what \<open>data ? JSON.parse(data) : null\<close> does with it: the empty
  string is falsy and is not parsed; \<open>JSON.parse\<close> throws on a malformed one; any other
  parses to a value.
\<close>

datatype stored = EmptyString | Malformed | Json js_data

text \<open>
  \<open>localStorage\<close>: the entries in the order of \<open>localStorage.key(i)\<close>. It holds one value
  for a key, so the keys of a well-formed store are distinct.
\<close>

type_synonym storage = "(string \<times> stored) list"

definition getItem :: "storage \<Rightarrow> string \<Rightarrow> stored option" where
  "getItem store k = map_of store k"

definition removeItem :: "storage \<Rightarrow> string \<Rightarrow> storage" where
  "removeItem store k = filter (\<lambda>e. fst e \<noteq> k) store"

text \<open>
  \<open>loadFromLocalStorage\<close> (lines 255 to 263): the \<open>catch\<close> turns the \<open>SyntaxError\<close> of
  \<open>JSON.parse\<close> into \<open>null\<close>.
\<close>

definition loadFromLocalStorage :: "storage \<Rightarrow> string \<Rightarrow> js_data" where
  "loadFromLocalStorage store k =
     (case getItem store k of
        None \<Rightarrow> JNull
      | Some EmptyString \<Rightarrow> JNull
      | Some Malformed \<Rightarrow> JNull
      | Some (Json d) \<Rightarrow> d)"

text \<open>\<open>removeFromLocalStorage\<close> (lines 269 to 275).\<close>

definition removeFromLocalStorage :: "storage \<Rightarrow> string \<Rightarrow> storage" where
  "removeFromLocalStorage store k = removeItem store k"

text \<open>
  An element of \<open>tracks\<close>, the object \<open>{ key, ...data }\<close>: the spread comes second, so an
  own property \<open>key\<close> of \<open>data\<close> replaces the storage key.
\<close>

record saved_track =
  st_key :: string
  st_timestamp :: "int option"

text \<open>
  The loop of \<open>getAllSavedTracks\<close> (lines 284 to 292) over the keys in index order.
\<close>

fun collect_tracks :: "storage \<Rightarrow> string list \<Rightarrow> saved_track list" where
  "collect_tracks store [] = []"
| "collect_tracks store (k # ks) =
     (if k \<noteq> [] \<and> prefix ''audio_'' k
      then
        (case loadFromLocalStorage store k of
           JObject own_key ts \<Rightarrow>
             \<lparr>st_key = (case own_key of None \<Rightarrow> k | Some k' \<Rightarrow> k'), st_timestamp = ts\<rparr>
               # collect_tracks store ks
         | _ \<Rightarrow> collect_tracks store ks)
      else collect_tracks store ks)"

text \<open>\<open>track.timestamp || 0\<close>: a missing timestamp counts as 0.\<close>

definition timestamp_or_0 :: "saved_track \<Rightarrow> int" where
  "timestamp_or_0 t = (case st_timestamp t of None \<Rightarrow> 0 | Some n \<Rightarrow> n)"

text \<open>
  \<open>getAllSavedTracks\<close> (lines 281 to 298). \<open>Array.prototype.sort\<close> is stable, and the
  comparator \<open>(b.timestamp || 0) - (a.timestamp || 0)\<close> orders by descending timestamp:
  the stable sort by the negated timestamp.
\<close>

definition getAllSavedTracks :: "storage \<Rightarrow> saved_track list" where
  "getAllSavedTracks store =
     sort_key (\<lambda>t. - timestamp_or_0 t) (collect_tracks store (map fst store))"

text \<open>\<open>clearOldAudioData\<close> (lines 303 to 315); \<open>tracks.slice(5)\<close> is \<open>drop 5\<close>.\<close>

definition clearOldAudioData :: "storage \<Rightarrow> storage" where
  "clearOldAudioData store =
     (let tracks = getAllSavedTracks store;
          tracksToRemove = drop 5 tracks
      in fold (\<lambda>t st. removeFromLocalStorage st (st_key t)) tracksToRemove store)"

text \<open>The entries whose keys start with \<open>audio_\<close>, and the timestamp an entry stores.\<close>

definition audio_entries :: "storage \<Rightarrow> storage" where
  "audio_entries store = filter (\<lambda>e. prefix ''audio_'' (fst e)) store"

definition stored_timestamp :: "stored \<Rightarrow> int" where
  "stored_timestamp v = (case v of Json (JObject _ (Some n)) \<Rightarrow> n | _ \<Rightarrow> 0)"

text \<open>
  An entry that \<open>getAllSavedTracks\<close> lists under its own storage key: its value parses
  to a truthy value without an own property \<open>key\<close>.
\<close>

definition readable :: "stored \<Rightarrow> bool" where
  "readable v = (case v of Json (JObject None _) \<Rightarrow> True | _ \<Rightarrow> False)"

text \<open>The element of \<open>tracks\<close> that the loop builds from a readable entry.\<close>

definition entry_track :: "string \<times> stored \<Rightarrow> saved_track" where
  "entry_track e =
     \<lparr>st_key = fst e,
      st_timestamp = (case snd e of Json (JObject _ ts) \<Rightarrow> ts | _ \<Rightarrow> None)\<rparr>"

definition store6 :: storage where
  "store6 = [(''audio_a'', EmptyString), (''audio_b'', EmptyString), (''audio_c'', EmptyString),
             (''audio_d'', Malformed), (''audio_e'', Json JNull), (''audio_f'', Json JFalsy)]"

definition store7 :: storage where
  "store7 = [(''audio_a'', Json (JObject None (Some 10))), (''theme'', Malformed),
             (''audio_b'', Json (JObject None (Some 70))), (''audio_c'', Json (JObject None None)),
             (''audio_d'', Json (JObject None (Some 30))), (''audio_e'', Json (JObject None (Some 50))),
             (''audio_f'', Json (JObject None (Some 20))), (''audio_g'', Json (JObject None (Some 60)))]"

section \<open>Volume and mute\<close>

lemma handleVolumeChange_fields:
  "volume (handleVolumeChange s v) = v"
  "isMuted (handleVolumeChange s v) = (v = 0)"
  "audioRef (handleVolumeChange s v) = audioRef s"
  by (simp_all add: handleVolumeChange_def)

lemma volumeEffect_fields:
  "volume (volumeEffect s) = volume s"
  "isMuted (volumeEffect s) = isMuted s"
  "isPlaying (volumeEffect s) = isPlaying s"
  by (simp_all add: volumeEffect_def split: option.splits)

lemma volumeEffect_synced: "volume_synced (volumeEffect s)"
  by (simp add: volume_synced_def volumeEffect_def split: option.splits)

lemma rerender_fields:
  "volume (rerender p s) = volume s"
  "isMuted (rerender p s) = isMuted s"
  by (simp_all add: rerender_def volumeEffect_fields)

lemma rerender_synced:
  assumes "volume_synced p" and "audioRef s = audioRef p"
  shows "volume_synced (rerender p s)"
proof (cases "volume s = volume p \<and> isMuted s = isMuted p")
  case True
  with assms show ?thesis
    by (simp add: rerender_def volume_synced_def split: option.splits)
next
  case False
  then show ?thesis
    by (auto simp add: rerender_def volumeEffect_synced)
qed

lemma synced_output:
  "volume_synced s \<Longrightarrow> audioRef s = Some a \<Longrightarrow>
   outputVolume s = Some (if isMuted s then 0 else volume s)"
  by (simp add: volume_synced_def outputVolume_def)

lemma rerender_audio_mounted:
  "audioRef s = Some a \<Longrightarrow> \<exists>a'. audioRef (rerender p s) = Some a'"
  by (simp add: rerender_def volumeEffect_def)

text \<open>
  Claim C1, as the code has it. \<open>handleVolumeChange\<close> does not clamp and it does write the
  muted flag: it stores the value it is given and sets \<open>isMuted\<close> to \<open>newVolume === 0\<close>.
  The counterexample: on a muted player the value 0.5 clears the flag, on an unmuted
  one the value 0 sets it, and the value 2 is stored as 2.
\<close>

theorem C1_counterexample:
  "isMuted (handleVolumeChange (player0\<lparr>isMuted := True\<rparr>) (1 / 2))
     \<noteq> isMuted (player0\<lparr>isMuted := True\<rparr>)
   \<and> isMuted (handleVolumeChange player0 0) \<noteq> isMuted player0
   \<and> volume (handleVolumeChange player0 2) \<noteq> clamp 2 0 1"
  by (simp add: handleVolumeChange_def player0_def clamp_def)

text \<open>
  Claim C1, amended: for every value \<open>v\<close> of the slider's range \<open>[0, 1]\<close>, the stored volume
  after \<open>handleVolumeChange\<close> is \<open>clamp(v, 0, 1)\<close>, the muted flag is \<open>v = 0\<close>, and once the
  volume effect has run the audio element plays at \<open>clamp(v, 0, 1)\<close>.
\<close>

theorem setVolume_in_range:
  assumes "0 \<le> v" and "v \<le> 1"
  shows "volume (setVolume_step s v) = clamp v 0 1
       \<and> isMuted (setVolume_step s v) = (v = 0)
       \<and> (volume_synced s \<longrightarrow> audioRef s \<noteq> None \<longrightarrow>
            outputVolume (setVolume_step s v) = Some (clamp v 0 1))"
proof -
  let ?s' = "setVolume_step s v"
  have cl: "clamp v 0 1 = v"
    using assms by (simp add: clamp_def)
  have vol: "volume ?s' = v" and mut: "isMuted ?s' = (v = 0)"
    by (simp_all add: setVolume_step_def rerender_fields handleVolumeChange_fields)
  have out: "outputVolume ?s' = Some v" if sy: "volume_synced s" and au: "audioRef s \<noteq> None"
  proof -
    from au obtain a where a: "audioRef s = Some a" by auto
    have "volume_synced ?s'"
      unfolding setVolume_step_def
      by (rule rerender_synced [OF sy]) (simp add: handleVolumeChange_fields)
    moreover obtain a' where "audioRef ?s' = Some a'"
      unfolding setVolume_step_def
      using rerender_audio_mounted [of "handleVolumeChange s v" a s] a
      by (auto simp add: handleVolumeChange_fields)
    ultimately have "outputVolume ?s' = Some (if isMuted ?s' then 0 else volume ?s')"
      by (rule synced_output)
    then show ?thesis
      by (simp add: vol mut)
  qed
  show ?thesis
    using vol mut out by (simp add: cl)
qed

text \<open>The amended claim C1 at the value 0.5 on the initial player.\<close>

theorem setVolume_in_range_witness:
  "(0::real) \<le> 1 / 2 \<and> (1 / 2 :: real) \<le> 1 \<and> volume_synced player0 \<and> audioRef player0 \<noteq> None
   \<and> volume (setVolume_step player0 (1 / 2)) = clamp (1 / 2) 0 1
   \<and> isMuted (setVolume_step player0 (1 / 2)) = False
   \<and> outputVolume (setVolume_step player0 (1 / 2)) = Some (1 / 2)"
proof -
  have sy: "volume_synced player0" and au: "audioRef player0 \<noteq> None"
    by (simp_all add: volume_synced_def player0_def)
  have cl: "clamp (1 / 2) 0 1 = 1 / 2"
    by (simp add: clamp_def)
  show ?thesis
    using setVolume_in_range [of "1 / 2" player0] sy au by (simp add: cl)
qed

lemma toggleMute_fields:
  "isMuted (toggleMute s) = (\<not> isMuted s)"
  "volume (toggleMute s) = volume s"
  "audioRef (toggleMute s) = audioRef s"
  by (simp_all add: toggleMute_def)

lemma toggleMute_step_eq: "toggleMute_step s = volumeEffect (toggleMute s)"
  by (simp add: toggleMute_step_def rerender_def toggleMute_fields)

lemma toggleMute_step_synced: "volume_synced (toggleMute_step s)"
  by (simp add: toggleMute_step_eq volumeEffect_synced)

lemma toggleMute_step_fields:
  "isMuted (toggleMute_step s) = (\<not> isMuted s)"
  "volume (toggleMute_step s) = volume s"
  by (simp_all add: toggleMute_step_eq volumeEffect_fields toggleMute_fields)

lemma toggleMute_step_mounted:
  "audioRef s \<noteq> None \<Longrightarrow> audioRef (toggleMute_step s) \<noteq> None"
  by (auto simp add: toggleMute_step_eq volumeEffect_def toggleMute_fields)

lemma toggleMute_step_output:
  assumes "audioRef s \<noteq> None"
  shows "outputVolume (toggleMute_step s) = Some (if isMuted s then volume s else 0)"
proof -
  from toggleMute_step_mounted [OF assms]
  obtain a where "audioRef (toggleMute_step s) = Some a" by auto
  with toggleMute_step_synced [of s]
  have "outputVolume (toggleMute_step s) =
          Some (if isMuted (toggleMute_step s) then 0 else volume (toggleMute_step s))"
    by (rule synced_output)
  then show ?thesis
    by (simp add: toggleMute_step_fields)
qed

text \<open>
  What holds of claim C8 while the audio element stays mounted: \<open>toggleMute\<close> changes the
  muted flag and nothing else, and two calls give the state back; with the renders they
  cause, two calls return \<open>isMuted\<close> to its value and leave \<open>volume\<close> as it was after the
  first and after the second call. After each call the audio element plays at
  \<open>isMuted ? 0 : volume\<close>, and a volume change keeps the element in step with the two
  cells.
\<close>

theorem toggleMute_twice:
  "toggleMute s = s\<lparr>isMuted := \<not> isMuted s\<rparr>
   \<and> toggleMute (toggleMute s) = s
   \<and> isMuted (toggleMute_step (toggleMute_step s)) = isMuted s
   \<and> volume (toggleMute_step s) = volume s
   \<and> volume (toggleMute_step (toggleMute_step s)) = volume s
   \<and> (audioRef s \<noteq> None \<longrightarrow>
        outputVolume (toggleMute_step s) = Some (if isMuted s then volume s else 0)
      \<and> outputVolume (toggleMute_step (toggleMute_step s))
          = Some (if isMuted s then 0 else volume s))
   \<and> (volume_synced s \<longrightarrow> volume_synced (setVolume_step s v))"
proof -
  have twice: "toggleMute (toggleMute s) = s"
    by (simp add: toggleMute_def)
  have out2: "outputVolume (toggleMute_step (toggleMute_step s))
                = Some (if isMuted s then 0 else volume s)" if "audioRef s \<noteq> None"
    using toggleMute_step_output [OF toggleMute_step_mounted [OF that]]
    by (simp add: toggleMute_step_fields)
  have inv: "volume_synced (setVolume_step s v)" if "volume_synced s"
    unfolding setVolume_step_def
    by (rule rerender_synced [OF that]) (simp add: handleVolumeChange_fields)
  show ?thesis
    using twice out2 inv toggleMute_step_output [of s]
    by (simp add: toggleMute_step_fields) (simp add: toggleMute_def)
qed

text \<open>
  The same on the initial player, whose audio element is mounted: muted after one call
  (output 0), back at volume 1 after two.
\<close>

theorem toggleMute_twice_witness:
  "audioRef player0 \<noteq> None \<and> volume_synced player0
   \<and> toggleMute (toggleMute player0) = player0
   \<and> outputVolume (toggleMute_step player0) = Some 0
   \<and> outputVolume (toggleMute_step (toggleMute_step player0)) = Some 1
   \<and> volume (toggleMute_step (toggleMute_step player0)) = 1
   \<and> volume_synced (setVolume_step player0 (1 / 4))"
proof -
  have sy: "volume_synced player0" and au: "audioRef player0 \<noteq> None"
    and mu: "\<not> isMuted player0" and vo: "volume player0 = 1"
    by (simp_all add: volume_synced_def player0_def)
  note t = toggleMute_twice [of player0 "1 / 4"]
  from t have a: "toggleMute (toggleMute player0) = player0"
    by blast
  from t au mu vo have b: "outputVolume (toggleMute_step player0) = Some 0"
    "outputVolume (toggleMute_step (toggleMute_step player0)) = Some 1"
    by simp_all
  from t vo have c: "volume (toggleMute_step (toggleMute_step player0)) = 1"
    by simp
  from t sy have d: "volume_synced (setVolume_step player0 (1 / 4))"
    by blast
  show ?thesis
    using sy au a b c d by simp
qed

text \<open>
  Claim C8 asks that the audio element plays at \<open>isMuted ? 0 : volume\<close> at all times. The
  component does not meet it when the element is mounted anew: the effect of lines 40
  to 44 depends on \<open>[volume, isMuted]\<close> only, so it does not run for the new element.
  Evaluated on the initial player: the slider is set to 0.5 and the element plays at
  0.5; the parent clears \<open>currentTrack\<close> and the element is unmounted; the parent passes
  a track again, and the new element plays at its default 1 while \<open>volume\<close> is still
  0.5 and \<open>isMuted\<close> is false.
\<close>

theorem remount_out_of_step:
  "volume_synced (setVolume_step player0 (1 / 2))
   \<and> outputVolume (setVolume_step player0 (1 / 2)) = Some (1 / 2)
   \<and> audioRef (track_changed None \<lparr>rect_left = 0, rect_width = 100\<rparr>
         (setVolume_step player0 (1 / 2))) = None
   \<and> volume (track_changed (Some trackA) \<lparr>rect_left = 0, rect_width = 100\<rparr>
         (track_changed None \<lparr>rect_left = 0, rect_width = 100\<rparr>
           (setVolume_step player0 (1 / 2)))) = 1 / 2
   \<and> \<not> isMuted (track_changed (Some trackA) \<lparr>rect_left = 0, rect_width = 100\<rparr>
         (track_changed None \<lparr>rect_left = 0, rect_width = 100\<rparr>
           (setVolume_step player0 (1 / 2))))
   \<and> outputVolume (track_changed (Some trackA) \<lparr>rect_left = 0, rect_width = 100\<rparr>
         (track_changed None \<lparr>rect_left = 0, rect_width = 100\<rparr>
           (setVolume_step player0 (1 / 2)))) = Some 1"
  by (simp add: track_changed_def rerender_def setVolume_step_def handleVolumeChange_def
      volumeEffect_def outputVolume_def volume_synced_def player0_def fresh_audio_def)

section \<open>Seeking\<close>

lemma handleProgressClick_status:
  "isPlaying (handleProgressClick s x) = isPlaying s"
  "map_option el_paused (audioRef (handleProgressClick s x)) = map_option el_paused (audioRef s)"
  by (simp_all add: handleProgressClick_def Let_def split: option.splits)

lemma handleProgressClick_time:
  "audioRef s = Some a \<Longrightarrow> progressRef s = Some r \<Longrightarrow>
   currentTime (handleProgressClick s x) = ((x - rect_left r) / rect_width r) * duration s"
  by (simp add: handleProgressClick_def Let_def)

text \<open>
  Claim C7: \<open>handleProgressClick\<close> changes neither \<open>isPlaying\<close> nor the element's paused
  flag, for every click. The handler is bound only as the \<open>onClick\<close> of the progress bar
  and reads that bar's own rectangle, so the click lies inside it:
  \<open>rect.left \<le> clientX \<le> rect.left + rect.width\<close>, with a positive width. For every
  such click and a duration that is not negative, the position the handler stores and
  gives to the audio element is the target clamped to \<open>[0, duration]\<close>; it lies in that
  interval.
\<close>

theorem seek_inside_bar:
  "isPlaying (handleProgressClick s x) = isPlaying s
   \<and> map_option el_paused (audioRef (handleProgressClick s x)) = map_option el_paused (audioRef s)
   \<and> (audioRef s \<noteq> None \<longrightarrow> progressRef s = Some r \<longrightarrow> 0 < rect_width r \<longrightarrow>
        rect_left r \<le> x \<longrightarrow> x \<le> rect_left r + rect_width r \<longrightarrow> 0 \<le> duration s \<longrightarrow>
          currentTime (handleProgressClick s x)
            = clamp (((x - rect_left r) / rect_width r) * duration s) 0 (duration s)
        \<and> 0 \<le> currentTime (handleProgressClick s x)
        \<and> currentTime (handleProgressClick s x) \<le> duration s
        \<and> map_option el_currentTime (audioRef (handleProgressClick s x))
            = Some (currentTime (handleProgressClick s x)))"
proof -
  have range: "currentTime (handleProgressClick s x)
            = clamp (((x - rect_left r) / rect_width r) * duration s) 0 (duration s)
        \<and> 0 \<le> currentTime (handleProgressClick s x)
        \<and> currentTime (handleProgressClick s x) \<le> duration s
        \<and> map_option el_currentTime (audioRef (handleProgressClick s x))
            = Some (currentTime (handleProgressClick s x))"
    if au: "audioRef s \<noteq> None" and pr: "progressRef s = Some r"
      and w: "0 < rect_width r" and lo: "rect_left r \<le> x"
      and hi: "x \<le> rect_left r + rect_width r" and d: "0 \<le> duration s"
  proof -
    from au obtain a where a: "audioRef s = Some a" by auto
    let ?f = "(x - rect_left r) / rect_width r"
    have f0: "0 \<le> ?f" and f1: "?f \<le> 1"
      using w lo hi by (simp_all add: field_simps)
    have t: "currentTime (handleProgressClick s x) = ?f * duration s"
      using a pr by (rule handleProgressClick_time)
    have l: "0 \<le> ?f * duration s"
      using f0 d by (rule mult_nonneg_nonneg)
    have h: "?f * duration s \<le> duration s"
      using mult_right_mono [OF f1 d] by simp
    have el: "map_option el_currentTime (audioRef (handleProgressClick s x)) = Some (?f * duration s)"
      using a pr by (simp add: handleProgressClick_def Let_def)
    show ?thesis
      using l h el by (simp add: t clamp_def)
  qed
  show ?thesis
    using range handleProgressClick_status [of s x] by blast
qed

text \<open>
  Claim C7 on the initial player with a duration of 10: a click a quarter into the bar
  seeks to 2.5, a click on its right edge to 10, and the player stays paused.
\<close>

theorem seek_inside_bar_witness:
  "audioRef (player0\<lparr>duration := 10\<rparr>) \<noteq> None
   \<and> progressRef (player0\<lparr>duration := 10\<rparr>) = Some \<lparr>rect_left = 0, rect_width = 100\<rparr>
   \<and> currentTime (handleProgressClick (player0\<lparr>duration := 10\<rparr>) 25) = 5 / 2
   \<and> clamp (((25 - 0) / 100) * 10) 0 10 = 5 / 2
   \<and> currentTime (handleProgressClick (player0\<lparr>duration := 10\<rparr>) 100) = 10
   \<and> isPlaying (handleProgressClick (player0\<lparr>duration := 10\<rparr>) 25) = False"
proof -
  let ?s = "player0\<lparr>duration := 10\<rparr>"
  let ?r = "\<lparr>rect_left = 0, rect_width = 100\<rparr>"
  have a: "audioRef ?s \<noteq> None" and r: "progressRef ?s = Some ?r"
    by (simp_all add: player0_def)
  have c: "clamp (((25 - 0) / 100) * 10) 0 10 = 5 / 2" "clamp (((100 - 0) / 100) * 10) 0 10 = 10"
    by (simp_all add: clamp_def)
  have p: "isPlaying ?s = False"
    by (simp add: player0_def)
  from seek_inside_bar [of ?s 25 ?r] a r c
  have t1: "currentTime (handleProgressClick ?s 25) = 5 / 2"
    by simp
  from seek_inside_bar [of ?s 100 ?r] a r c
  have t2: "currentTime (handleProgressClick ?s 100) = 10"
    by simp
  from seek_inside_bar [of ?s 25 ?r] p
  have t3: "isPlaying (handleProgressClick ?s 25) = False"
    by simp
  show ?thesis
    using a r c t1 t2 t3 by simp
qed

section \<open>Rejecting oversized uploads\<close>

lemma suffix_mp3_toLowerCase: "suffix ''.mp3'' (toLowerCase ''Song.MP3'')"
  by code_simp

text \<open>
  Claim C9: a file of more than \<open>50 * 1024 * 1024\<close> bytes is rejected whatever its type
  and name: \<open>handleFileSelect\<close> ends with an error message and without a call of
  \<open>onFileUpload\<close>, and \<open>isValidMP3File\<close> returns false.
\<close>

theorem oversize_rejected:
  assumes "file_size f > 50 * 1024 * 1024"
  shows "uploadError (handleFileSelect (Some f)) \<noteq> []
       \<and> onFileUpload (handleFileSelect (Some f)) = None
       \<and> \<not> isValidMP3File (Some f)"
  using assms by (simp add: handleFileSelect_def isValidMP3File_def maxSize_def)

text \<open>
  Claim C9 at an MP3 file one byte over the limit; the same file at exactly the limit
  passes \<open>isValidMP3File\<close>.
\<close>

theorem oversize_rejected_witness:
  "file_size bigFile > 50 * 1024 * 1024
   \<and> uploadError (handleFileSelect (Some bigFile)) = ''File size must be less than 50MB''
   \<and> onFileUpload (handleFileSelect (Some bigFile)) = None
   \<and> \<not> isValidMP3File (Some bigFile)
   \<and> isValidMP3File (Some (bigFile\<lparr>file_size := 50 * 1024 * 1024\<rparr>))"
proof -
  have big: "file_size bigFile > 50 * 1024 * 1024"
    by (simp add: bigFile_def)
  have err: "uploadError (handleFileSelect (Some bigFile)) = ''File size must be less than 50MB''"
    using suffix_mp3_toLowerCase by (simp add: handleFileSelect_def bigFile_def)
  have ok: "isValidMP3File (Some (bigFile\<lparr>file_size := 50 * 1024 * 1024\<rparr>))"
    using suffix_mp3_toLowerCase
    by (simp add: isValidMP3File_def bigFile_def validTypes_def maxSize_def)
  show ?thesis
    using oversize_rejected [OF big] big err ok by simp
qed

section \<open>Navigation: next, previous and the natural end\<close>

lemma findIndex_from_none:
  "\<forall>x\<in>set xs. \<not> P x \<Longrightarrow> findIndex_from P xs i = - 1"
  by (induction xs arbitrary: i) auto

lemma findIndex_none: "\<forall>x\<in>set xs. \<not> P x \<Longrightarrow> findIndex P xs = - 1"
  by (simp add: findIndex_def findIndex_from_none)

lemma findIndex_from_first:
  "k < length xs \<Longrightarrow> P (xs ! k) \<Longrightarrow> \<forall>j<k. \<not> P (xs ! j) \<Longrightarrow>
   findIndex_from P xs i = i + int k"
proof (induction xs arbitrary: i k)
  case Nil
  then show ?case by simp
next
  case (Cons x xs)
  show ?case
  proof (cases k)
    case 0
    with Cons.prems show ?thesis by simp
  next
    case (Suc m)
    from Cons.prems(3) Suc have nx: "\<not> P x" by auto
    have "findIndex_from P xs (i + 1) = (i + 1) + int m"
    proof (rule Cons.IH)
      show "m < length xs" using Cons.prems(1) Suc by simp
      show "P (xs ! m)" using Cons.prems(2) Suc by simp
      show "\<forall>j<m. \<not> P (xs ! j)"
      proof (intro allI impI)
        fix j assume "j < m"
        then have "Suc j < k" using Suc by simp
        with Cons.prems(3) have "\<not> P ((x # xs) ! Suc j)" by blast
        then show "\<not> P (xs ! j)" by simp
      qed
    qed
    with nx Suc show ?thesis by simp
  qed
qed

lemma findIndex_first:
  "k < length xs \<Longrightarrow> P (xs ! k) \<Longrightarrow> \<forall>j<k. \<not> P (xs ! j) \<Longrightarrow> findIndex P xs = int k"
  using findIndex_from_first [of k xs P 0] by (simp add: findIndex_def)

lemma findIndex_distinct_id:
  assumes "distinct (map track_id pl)" and "k < length pl"
  shows "findIndex (id_matches (Some (pl ! k))) pl = int k"
proof (rule findIndex_first [OF assms(2)])
  show "id_matches (Some (pl ! k)) (pl ! k)"
    by (simp add: id_matches_def)
  show "\<forall>j<k. \<not> id_matches (Some (pl ! k)) (pl ! j)"
  proof (intro allI impI)
    fix j assume jk: "j < k"
    then have "j < length pl" using assms(2) by simp
    with assms jk have "map track_id pl ! j \<noteq> map track_id pl ! k"
      by (simp add: nth_eq_iff_index_eq del: nth_map)
    then show "\<not> id_matches (Some (pl ! k)) (pl ! j)"
      using assms(2) jk by (simp add: id_matches_def)
  qed
qed

lemma findIndex_present:
  assumes "track_id c \<in> track_id ` set pl" and "distinct (map track_id pl)"
  shows "\<exists>k<length pl. track_id (pl ! k) = track_id c \<and> findIndex (id_matches (Some c)) pl = int k"
proof -
  from assms(1) obtain k where k: "k < length pl" and id: "track_id (pl ! k) = track_id c"
    by (auto simp add: in_set_conv_nth)
  have "id_matches (Some c) = id_matches (Some (pl ! k))"
    by (rule ext) (simp add: id_matches_def id)
  with findIndex_distinct_id [OF assms(2) k] k id show ?thesis
    by auto
qed

lemma js_index_nat: "k < length xs \<Longrightarrow> js_index xs (int k) = Some (xs ! k)"
  by (simp add: js_index_def)

lemma smod_nonneg: "0 \<le> a \<Longrightarrow> 0 < b \<Longrightarrow> (a::int) smod b = a mod b"
  by (simp add: signed_modulo_int_def sgn_if)

lemma next_index:
  assumes "k < length pl"
  shows "(int k + 1) smod int (length pl) = int (Suc k mod length pl)"
proof -
  have "(int k + 1) smod int (length pl) = (int k + 1) mod int (length pl)"
    using assms by (intro smod_nonneg) auto
  also have "\<dots> = int (Suc k mod length pl)"
    by (simp add: zmod_int add.commute)
  finally show ?thesis .
qed

lemma handleNext_present:
  assumes "distinct (map track_id pl)" and "k < length pl" and "track_id c = track_id (pl ! k)"
  shows "handleNext (Some pl) (Some c) = OnTrackChange (Some (pl ! (Suc k mod length pl)))"
proof -
  have eq: "id_matches (Some c) = id_matches (Some (pl ! k))"
    by (rule ext) (simp add: id_matches_def assms(3))
  have fi: "findIndex (id_matches (Some c)) pl = int k"
    unfolding eq by (rule findIndex_distinct_id [OF assms(1,2)])
  have ne: "pl \<noteq> []"
    using assms(2) by auto
  then have lt: "Suc k mod length pl < length pl"
    by simp
  show ?thesis
    using assms(2) ne by (simp add: handleNext_def fi next_index js_index_nat [OF lt])
qed

lemma handlePrevious_present:
  assumes "distinct (map track_id pl)" and "k < length pl" and "track_id c = track_id (pl ! k)"
  shows "handlePrevious (Some pl) (Some c)
           = OnTrackChange (Some (pl ! (if k = 0 then length pl - 1 else k - 1)))"
proof -
  have eq: "id_matches (Some c) = id_matches (Some (pl ! k))"
    by (rule ext) (simp add: id_matches_def assms(3))
  have fi: "findIndex (id_matches (Some c)) pl = int k"
    unfolding eq by (rule findIndex_distinct_id [OF assms(1,2)])
  have ne: "pl \<noteq> []"
    using assms(2) by auto
  show ?thesis
  proof (cases "k = 0")
    case True
    have "int (length pl) - 1 = int (length pl - 1)"
      using assms(2) by simp
    moreover have "length pl - 1 < length pl"
      using assms(2) by simp
    ultimately show ?thesis
      using assms(2) ne True by (simp add: handlePrevious_def fi js_index_nat del: of_nat_diff)
  next
    case False
    then have "int k - 1 = int (k - 1)" by simp
    moreover have "k - 1 < length pl"
      using assms(2) by simp
    ultimately show ?thesis
      using assms(2) ne False by (simp add: handlePrevious_def fi js_index_nat del: of_nat_diff)
  qed
qed

text \<open>
  Claim C4: on a playlist of at least two tracks that contains the current track's id,
  \<open>next()\<close> followed by \<open>previous()\<close> brings \<open>activeTrackId\<close> back to its value. A playlist
  snapshot has pairwise distinct ids, the invariant of the spec's data model; the
  handlers find the current track by the first entry with its id.
\<close>

theorem next_then_previous:
  assumes "distinct (map track_id pl)" and "2 \<le> length pl"
    and "track_id c \<in> track_id ` set pl"
  shows "activeTrackId (previous_track (Some pl) (next_track (Some pl) (Some c)))
           = activeTrackId (Some c)"
proof -
  from findIndex_present [OF assms(3,1)]
  obtain k where k: "k < length pl" and id: "track_id (pl ! k) = track_id c"
    by blast
  let ?j = "Suc k mod length pl"
  have j: "?j < length pl"
    using k by (intro mod_less_divisor) auto
  have nx: "next_track (Some pl) (Some c) = Some (pl ! ?j)"
    using handleNext_present [OF assms(1) k id [symmetric]]
    by (simp add: next_track_def apply_call_def)
  have prev_ix: "(if ?j = 0 then length pl - 1 else ?j - 1) = k"
  proof (cases "Suc k = length pl")
    case True
    then show ?thesis by auto
  next
    case False
    with k have "Suc k < length pl" by simp
    then show ?thesis by simp
  qed
  have "previous_track (Some pl) (Some (pl ! ?j)) = Some (pl ! k)"
    using handlePrevious_present [OF assms(1) j refl] prev_ix
    by (simp add: previous_track_def apply_call_def)
  then show ?thesis
    by (simp add: nx activeTrackId_def id)
qed


lemma abc_ids: "distinct (map track_id [trackA, trackB, trackC])"
  by (simp add: trackA_def trackB_def trackC_def)

text \<open>
  Claim C4 on the playlist \<open>[A, B, C]\<close> from the last track: \<open>next()\<close> wraps to \<open>A\<close>, and
  \<open>previous()\<close> from \<open>A\<close> wraps back to the id of \<open>C\<close>.
\<close>

theorem next_then_previous_witness:
  "distinct (map track_id [trackA, trackB, trackC]) \<and> 2 \<le> length [trackA, trackB, trackC]
   \<and> track_id trackC \<in> track_id ` set [trackA, trackB, trackC]
   \<and> next_track (Some [trackA, trackB, trackC]) (Some trackC) = Some trackA
   \<and> activeTrackId (previous_track (Some [trackA, trackB, trackC]) (Some trackA)) = Some 3"
proof -
  let ?pl = "[trackA, trackB, trackC]"
  have len: "2 \<le> length ?pl" and mem: "track_id trackC \<in> track_id ` set ?pl"
    by simp_all
  have nx: "next_track (Some ?pl) (Some trackC) = Some trackA"
    using handleNext_present [OF abc_ids, of 2 trackC]
    by (simp add: next_track_def apply_call_def)
  have "activeTrackId (previous_track (Some ?pl) (Some trackA)) = activeTrackId (Some trackC)"
    using next_then_previous [OF abc_ids len mem] by (simp add: nx)
  then show ?thesis
    using abc_ids nx by (simp add: activeTrackId_def trackC_def)
qed

lemma not_found_index:
  assumes "track_id c \<notin> track_id ` set pl"
  shows "findIndex (id_matches (Some c)) pl = - 1"
proof (rule findIndex_none, rule ballI)
  fix x assume "x \<in> set pl"
  then have "track_id x \<in> track_id ` set pl"
    by (rule imageI)
  with assms show "\<not> id_matches (Some c) x"
    by (auto simp add: id_matches_def)
qed

lemma handleNext_single:
  "track_id c = track_id t \<Longrightarrow> handleNext (Some [t]) (Some c) = OnTrackChange (Some t)"
  by (simp add: handleNext_def findIndex_def id_matches_def js_index_def signed_modulo_int_def)

lemma handlePrevious_single:
  "track_id c = track_id t \<Longrightarrow> handlePrevious (Some [t]) (Some c) = OnTrackChange (Some t)"
  by (simp add: handlePrevious_def findIndex_def id_matches_def js_index_def)

text \<open>
  With a current track that is not in a nonempty playlist, \<open>findIndex\<close> gives \<open>-1\<close>;
  \<open>handlePrevious\<close> then reads \<open>playlist[-2]\<close> and calls \<open>onTrackChange(undefined)\<close>.
\<close>

lemma handlePrevious_not_found:
  assumes "track_id c \<notin> track_id ` set pl" and "pl \<noteq> []"
  shows "handlePrevious (Some pl) (Some c) = OnTrackChange None"
  using assms(2) by (simp add: handlePrevious_def not_found_index [OF assms(1)] js_index_def)

text \<open>
  Claim C2, as the code has it. The handlers have no error result. The counterexample:
  with the playlist \<open>[A, B, C]\<close> and the current track \<open>X\<close>, whose id is not in it,
  \<open>handleNext\<close> computes \<open>(-1 + 1) % 3 = 0\<close> and selects \<open>A\<close>.
\<close>

theorem C2_counterexample:
  "track_id trackX \<notin> track_id ` set [trackA, trackB, trackC]
   \<and> handleNext (Some [trackA, trackB, trackC]) (Some trackX) = OnTrackChange (Some trackA)
   \<and> next_track (Some [trackA, trackB, trackC]) (Some trackX) = Some trackA"
proof -
  have nf: "track_id trackX \<notin> track_id ` set [trackA, trackB, trackC]"
    by (simp add: trackA_def trackB_def trackC_def trackX_def)
  have "handleNext (Some [trackA, trackB, trackC]) (Some trackX) = OnTrackChange (Some trackA)"
    by (simp add: handleNext_def not_found_index [OF nf] js_index_def)
  with nf show ?thesis
    by (simp add: next_track_def apply_call_def)
qed

text \<open>
  Claim C2, amended: for a current track whose id does not occur in the playlist,
  \<open>next()\<close> on a nonempty playlist reports no error and selects the first track; on an
  empty playlist \<open>next()\<close> and \<open>previous()\<close> return without calling \<open>onTrackChange\<close>.
\<close>

theorem next_not_found:
  assumes "track_id c \<notin> track_id ` set pl"
  shows "(pl \<noteq> [] \<longrightarrow> handleNext (Some pl) (Some c) = OnTrackChange (Some (pl ! 0))
                     \<and> next_track (Some pl) (Some c) = Some (pl ! 0))
       \<and> (pl = [] \<longrightarrow> handleNext (Some pl) (Some c) = NoCall
                     \<and> handlePrevious (Some pl) (Some c) = NoCall)"
  by (simp add: handleNext_def handlePrevious_def not_found_index [OF assms] js_index_def
      next_track_def apply_call_def)

text \<open>
  The amended claim C2 at the playlist \<open>[B, C]\<close> and at the empty playlist, with the
  current track \<open>X\<close>.
\<close>

theorem next_not_found_witness:
  "track_id trackX \<notin> track_id ` set [trackB, trackC]
   \<and> handleNext (Some [trackB, trackC]) (Some trackX) = OnTrackChange (Some trackB)
   \<and> track_id trackX \<notin> track_id ` set []
   \<and> handleNext (Some []) (Some trackX) = NoCall
   \<and> handlePrevious (Some []) (Some trackX) = NoCall"
proof -
  have nf: "track_id trackX \<notin> track_id ` set [trackB, trackC]"
    by (simp add: trackB_def trackC_def trackX_def)
  have nf0: "track_id trackX \<notin> track_id ` set []"
    by simp
  show ?thesis
    using next_not_found [OF nf] next_not_found [OF nf0] nf by simp
qed

text \<open>
  Claim C5, as the code has it. The handlers return early on an empty playlist only, and
  they report nothing. The counterexample, on the one-entry playlist \<open>[A]\<close>: with the
  current track \<open>A\<close>, \<open>handleNext\<close> calls \<open>onTrackChange(A)\<close>; with the current track \<open>X\<close>,
  it moves \<open>activeTrackId\<close> from the id of \<open>X\<close> to the id of \<open>A\<close>.
\<close>

theorem C5_counterexample:
  "length [trackA] \<le> 1
   \<and> handleNext (Some [trackA]) (Some trackA) = OnTrackChange (Some trackA)
   \<and> activeTrackId (next_track (Some [trackA]) (Some trackX)) \<noteq> activeTrackId (Some trackX)"
proof -
  have nf: "track_id trackX \<notin> track_id ` set [trackA]"
    by (simp add: trackA_def trackX_def)
  have a: "handleNext (Some [trackA]) (Some trackA) = OnTrackChange (Some trackA)"
    by (rule handleNext_single) simp
  have "next_track (Some [trackA]) (Some trackX) = Some trackA"
    by (simp add: next_track_def apply_call_def handleNext_def not_found_index [OF nf] js_index_def)
  then show ?thesis
    using a by (simp add: activeTrackId_def trackA_def trackX_def)
qed

text \<open>
  Claim C5, amended: on a playlist of at most one entry that is empty or holds the
  current track's id, \<open>next()\<close> and \<open>previous()\<close> leave \<open>activeTrackId\<close> unchanged: on the
  empty playlist they return without calling \<open>onTrackChange\<close>, on the one-entry
  playlist they call it with that entry.
\<close>

theorem short_playlist_keeps_track:
  assumes "length pl \<le> 1" and "pl = [] \<or> (\<exists>t\<in>set pl. id_matches cur t)"
  shows "activeTrackId (next_track (Some pl) cur) = activeTrackId cur
       \<and> activeTrackId (previous_track (Some pl) cur) = activeTrackId cur
       \<and> (pl = [] \<longrightarrow> handleNext (Some pl) cur = NoCall \<and> handlePrevious (Some pl) cur = NoCall)
       \<and> (pl \<noteq> [] \<longrightarrow> handleNext (Some pl) cur = OnTrackChange (Some (pl ! 0))
                      \<and> handlePrevious (Some pl) cur = OnTrackChange (Some (pl ! 0)))"
proof (cases pl)
  case Nil
  then show ?thesis
    by (simp add: next_track_def previous_track_def apply_call_def handleNext_def
        handlePrevious_def)
next
  case (Cons t ts)
  with assms(1) have pl: "pl = [t]" by simp
  with assms(2) have "id_matches cur t" by simp
  then obtain c where cur: "cur = Some c" and id: "track_id c = track_id t"
    by (auto simp add: id_matches_def split: option.splits)
  have n: "handleNext (Some [t]) (Some c) = OnTrackChange (Some t)"
    using id by (rule handleNext_single)
  have p: "handlePrevious (Some [t]) (Some c) = OnTrackChange (Some t)"
    using id by (rule handlePrevious_single)
  show ?thesis
    using n p by (simp add: pl cur next_track_def previous_track_def apply_call_def
        activeTrackId_def id)
qed

text \<open>
  The amended claim C5 at the playlist \<open>[A]\<close> with the current track \<open>A\<close>, and at the
  empty playlist with no current track.
\<close>

theorem short_playlist_keeps_track_witness:
  "activeTrackId (next_track (Some [trackA]) (Some trackA)) = Some 1
   \<and> activeTrackId (previous_track (Some [trackA]) (Some trackA)) = Some 1
   \<and> handleNext (Some [trackA]) (Some trackA) = OnTrackChange (Some trackA)
   \<and> handleNext (Some []) None = NoCall \<and> handlePrevious (Some []) None = NoCall"
proof -
  have one: "length [trackA] \<le> 1" and zero: "length ([] :: track list) \<le> 1"
    by simp_all
  have m: "[trackA] = [] \<or> (\<exists>t\<in>set [trackA]. id_matches (Some trackA) t)"
    by (simp add: id_matches_def)
  have e: "([] :: track list) = [] \<or> (\<exists>t\<in>set []. id_matches None t)"
    by simp
  show ?thesis
    using short_playlist_keeps_track [OF one m] short_playlist_keeps_track [OF zero e]
    by (simp add: activeTrackId_def trackA_def)
qed

text \<open>
  Claim C6: the listener of \<open>ended\<close> calls the same \<open>handleNext\<close> as the button. For tracks
  \<open>A\<close>, \<open>B\<close>, \<open>C\<close> with distinct ids and the playlist \<open>[A, B, C]\<close>: from \<open>B\<close>, \<open>next()\<close> selects \<open>C\<close>;
  a natural end on \<open>C\<close> clears \<open>isPlaying\<close> and selects \<open>A\<close>.
\<close>

theorem natural_end_advances:
  assumes "distinct [track_id a, track_id b, track_id c]"
  shows "handleNext (Some [a, b, c]) (Some b) = OnTrackChange (Some c)
       \<and> next_track (Some [a, b, c]) (Some b) = Some c
       \<and> handleEnded (Some [a, b, c]) (Some c) s = (s\<lparr>isPlaying := False\<rparr>, OnTrackChange (Some a))
       \<and> apply_call (snd (handleEnded (Some [a, b, c]) (Some c) s)) (Some c) = Some a
       \<and> snd (handleEnded playlist cur s) = handleNext playlist cur"
proof -
  have d: "distinct (map track_id [a, b, c])"
    using assms by simp
  have n1: "handleNext (Some [a, b, c]) (Some b) = OnTrackChange (Some c)"
    using handleNext_present [OF d, of 1 b] by simp
  have n2: "handleNext (Some [a, b, c]) (Some c) = OnTrackChange (Some a)"
    using handleNext_present [OF d, of 2 c] by simp
  show ?thesis
    by (simp add: n1 n2 handleEnded_def next_track_def apply_call_def)
qed

text \<open>
  Claim C6 at the three tracks of the scenario, with a player that is playing.
\<close>

theorem natural_end_advances_witness:
  "distinct [track_id trackA, track_id trackB, track_id trackC]
   \<and> next_track (Some [trackA, trackB, trackC]) (Some trackB) = Some trackC
   \<and> handleEnded (Some [trackA, trackB, trackC]) (Some trackC) (player0\<lparr>isPlaying := True\<rparr>)
       = (player0\<lparr>isPlaying := False\<rparr>, OnTrackChange (Some trackA))"
proof -
  have d: "distinct [track_id trackA, track_id trackB, track_id trackC]"
    by (simp add: trackA_def trackB_def trackC_def)
  show ?thesis
    using natural_end_advances [OF d, of "player0\<lparr>isPlaying := True\<rparr>"] d by simp
qed

section \<open>Sampling after pause\<close>

lemma updateAudioData_current:
  "animationId_current (updateAudioData sample s) = animationId_current s"
  by (simp add: updateAudioData_def requestAnimationFrame_def Let_def)

lemma updateAudioData_time:
  "h_currentTime (updateAudioData sample s) = h_currentTime s"
  by (simp add: updateAudioData_def requestAnimationFrame_def Let_def)

lemma pauseSong_keeps_pending:
  "animationId_current s = None \<Longrightarrow> raf_pending (pauseSong s) = raf_pending s"
  by (simp add: pauseSong_def Let_def split: option.splits)

lemma fold_updateAudioData_time:
  "h_currentTime (fold (\<lambda>h st. updateAudioData sample st) hs s) = h_currentTime s"
  by (induction hs arbitrary: s) (simp_all add: updateAudioData_time)

lemma frame_time: "h_currentTime (frame sample s) = h_currentTime s"
  by (simp add: frame_def fold_updateAudioData_time)

lemma updateAudioData_armed:
  assumes "analyserRef s" and "dataArrayRef s \<noteq> None"
  shows "h_audioData (updateAudioData sample s) = sample"
    and "raf_pending (updateAudioData sample s) = raf_pending s @ [raf_next s]"
    and "analyserRef (updateAudioData sample s)"
    and "dataArrayRef (updateAudioData sample s) \<noteq> None"
  using assms by (simp_all add: updateAudioData_def requestAnimationFrame_def Let_def)

text \<open>
  Claim C3 asks that no sampling tick after \<open>pause()\<close> produces a snapshot. The page
  component does not meet it: \<open>updateAudioData\<close> keeps its handle in
  \<open>animationIdRef.useRef\<close>, \<open>pauseSong\<close> cancels \<open>animationIdRef.current\<close>, which is still
  null. Evaluated on the mounted page: after \<open>playSong\<close> and \<open>pauseSong\<close> the callback with
  handle 1 is still pending; the next frame runs it, replaces the snapshot \<open>[1, 2]\<close> by
  the new sample \<open>[3, 4]\<close> and schedules handle 2. \<open>currentTime\<close> is not touched by the
  frame.
\<close>

theorem pause_leaves_loop_running:
  "h_isPlaying (playSong [1, 2] song1 home0)
   \<and> \<not> h_isPlaying (pauseSong (playSong [1, 2] song1 home0))
   \<and> raf_pending (pauseSong (playSong [1, 2] song1 home0)) = [1]
   \<and> h_audioData (pauseSong (playSong [1, 2] song1 home0)) = [1, 2]
   \<and> h_audioData (frame [3, 4] (pauseSong (playSong [1, 2] song1 home0))) = [3, 4]
   \<and> raf_pending (frame [3, 4] (pauseSong (playSong [1, 2] song1 home0))) = [2]
   \<and> h_currentTime (frame [3, 4] (pauseSong (playSong [1, 2] song1 home0)))
       = h_currentTime (pauseSong (playSong [1, 2] song1 home0))"
  by (simp add: playSong_def pauseSong_def frame_def updateAudioData_def
      requestAnimationFrame_def initializeAudioContext_def home0_def song1_def Let_def)

text \<open>
  The loop of \<open>AudioVisualizer\<close> keeps its handle in \<open>animationIdRef.current\<close>, so the
  cleanup that runs when \<open>isPlaying\<close> turns false cancels the pending \<open>draw\<close>: the next
  frame draws nothing. The invariant \<open>loop_tracked\<close> is set up when \<open>isPlaying\<close> turns true
  and kept by every frame.
\<close>

lemma v_cancel_current_tracked:
  assumes "loop_tracked s"
  shows "v_pending (v_cancel_current s) = []"
  using assms by (auto simp add: loop_tracked_def v_cancel_current_def split: option.splits)

lemma isPlaying_false_stops_loop:
  assumes "loop_tracked s"
  shows "v_pending (isPlaying_changed sample False s) = []"
    and "v_drawn (isPlaying_changed sample False s) = v_drawn s"
proof -
  have c: "v_pending (effect_cleanup s) = []"
    using assms v_cancel_current_tracked [OF assms]
    by (simp add: effect_cleanup_def loop_tracked_def)
  show "v_pending (isPlaying_changed sample False s) = []"
    using c by (simp add: isPlaying_changed_def sampling_effect_def v_cancel_current_def
        split: option.splits)
  show "v_drawn (isPlaying_changed sample False s) = v_drawn s"
    by (simp add: isPlaying_changed_def sampling_effect_def v_cancel_current_def
        effect_cleanup_def split: option.splits)
qed

lemma v_frame_idle: "v_pending s = [] \<Longrightarrow> v_frame sample s = s"
  by (simp add: v_frame_def)

lemma tick_after_pause_draws_nothing:
  assumes "loop_tracked s"
  shows "v_drawn (v_frame sample' (isPlaying_changed sample False s)) = v_drawn s"
  using isPlaying_false_stops_loop [OF assms] by (simp add: v_frame_idle)

lemma draw_tracked:
  assumes "loop_tracked s" and "v_pending s = []"
  shows "loop_tracked (draw sample s)"
  using assms by (auto simp add: loop_tracked_def draw_def split: option.splits)

lemma v_frame_tracked:
  assumes "loop_tracked s"
  shows "loop_tracked (v_frame sample s)"
proof (cases "v_pending s")
  case Nil
  with assms show ?thesis by (simp add: v_frame_idle)
next
  case (Cons h hs)
  with assms have p: "v_pending s = [h]"
    by (auto simp add: loop_tracked_def split: option.splits)
  have "loop_tracked (s\<lparr>v_pending := []\<rparr>)"
    using assms by (auto simp add: loop_tracked_def split: option.splits)
  then have "loop_tracked (draw sample (s\<lparr>v_pending := []\<rparr>))"
    by (rule draw_tracked) simp
  then show ?thesis
    by (simp add: v_frame_def p)
qed

lemma isPlaying_true_tracked:
  assumes "v_isInitialized s" and "v_canvas s" and "v_analyser s" and "v_dataArray s \<noteq> None"
    and "v_pending s = []" and "0 < v_next s" and "\<not> v_cleanup s"
  shows "loop_tracked (isPlaying_changed sample True s)"
    and "v_drawn (isPlaying_changed sample True s) = sample"
  using assms
  by (auto simp add: isPlaying_changed_def effect_cleanup_def sampling_effect_def draw_def
      loop_tracked_def v_cancel_current_def split: option.splits)

lemma v_frame_draws:
  assumes "loop_tracked s" and "v_pending s \<noteq> []" and "v_analyser s" and "v_dataArray s \<noteq> None"
  shows "v_drawn (v_frame sample s) = sample"
proof -
  from assms(1,2) obtain h where "v_pending s = [h]"
    by (auto simp add: loop_tracked_def split: option.splits)
  then show ?thesis
    using assms(3,4) by (auto simp add: v_frame_def draw_def)
qed

section \<open>Trimming the saved tracks\<close>

text \<open>
  The \<open>forEach\<close> of \<open>clearOldAudioData\<close> removes exactly the entries whose key is the
  \<open>key\<close> of a track beyond the fifth.
\<close>

lemma fold_remove:
  "fold (\<lambda>t st. removeFromLocalStorage st (st_key t)) ts store
     = filter (\<lambda>e. fst e \<notin> st_key ` set ts) store"
proof (induction ts arbitrary: store)
  case Nil
  then show ?case by simp
next
  case (Cons t ts)
  have "fold (\<lambda>t st. removeFromLocalStorage st (st_key t)) (t # ts) store
          = filter (\<lambda>e. fst e \<notin> st_key ` set ts) (removeFromLocalStorage store (st_key t))"
    by (simp add: Cons.IH)
  also have "\<dots> = filter (\<lambda>e. fst e \<notin> st_key ` set ts) (filter (\<lambda>e. fst e \<noteq> st_key t) store)"
    by (simp add: removeFromLocalStorage_def removeItem_def)
  also have "\<dots> = filter (\<lambda>e. fst e \<notin> st_key ` set (t # ts)) store"
    by (induction store) auto
  finally show ?case .
qed

lemma clearOldAudioData_filter:
  "clearOldAudioData store
     = filter (\<lambda>e. fst e \<notin> st_key ` set (drop 5 (getAllSavedTracks store))) store"
  by (simp add: clearOldAudioData_def fold_remove)

lemma load_entry:
  assumes "distinct (map fst store)" and "e \<in> set store"
  shows "loadFromLocalStorage store (fst e)
           = (case snd e of EmptyString \<Rightarrow> JNull | Malformed \<Rightarrow> JNull | Json d \<Rightarrow> d)"
proof -
  have "map_of store (fst e) = Some (snd e)"
    using assms by (intro map_of_is_SomeI) simp_all
  then show ?thesis
    by (simp add: loadFromLocalStorage_def getItem_def)
qed

text \<open>
  In a store with distinct keys whose \<open>audio_\<close> entries are all readable, the loop lists
  every \<open>audio_\<close> entry, in storage order.
\<close>

lemma collect_readable:
  assumes "distinct (map fst store)"
    and "\<forall>e\<in>set (audio_entries store). readable (snd e)"
    and "set es \<subseteq> set store"
  shows "collect_tracks store (map fst es) = map entry_track (audio_entries es)"
  using assms(3)
proof (induction es)
  case Nil
  then show ?case by (simp add: audio_entries_def)
next
  case (Cons e es)
  then have mem: "e \<in> set store" and sub: "set es \<subseteq> set store"
    by simp_all
  have IH: "collect_tracks store (map fst es) = map entry_track (audio_entries es)"
    using Cons.IH sub by simp
  show ?case
  proof (cases "prefix ''audio_'' (fst e)")
    case False
    then show ?thesis
      by (simp add: IH audio_entries_def)
  next
    case True
    then have ne: "fst e \<noteq> []"
      by auto
    from True mem have "e \<in> set (audio_entries store)"
      by (simp add: audio_entries_def)
    with assms(2) have "readable (snd e)"
      by blast
    then obtain ts where v: "snd e = Json (JObject None ts)"
      by (auto simp add: readable_def split: stored.splits js_data.splits option.splits)
    have ld: "loadFromLocalStorage store (fst e) = JObject None ts"
      using load_entry [OF assms(1) mem] by (simp add: v)
    show ?thesis
      using True ne by (simp add: IH audio_entries_def ld entry_track_def v)
  qed
qed

lemma tracks_readable:
  assumes "distinct (map fst store)"
    and "\<forall>e\<in>set (audio_entries store). readable (snd e)"
  shows "getAllSavedTracks store
           = sort_key (\<lambda>t. - timestamp_or_0 t) (map entry_track (audio_entries store))"
  using collect_readable [OF assms, of store] by (simp add: getAllSavedTracks_def)

lemma entry_track_key: "st_key (entry_track e) = fst e"
  by (simp add: entry_track_def)

lemma entry_track_timestamp: "timestamp_or_0 (entry_track e) = stored_timestamp (snd e)"
  by (simp add: entry_track_def timestamp_or_0_def stored_timestamp_def
      split: stored.splits js_data.splits option.splits)

lemma distinct_audio_keys:
  "distinct (map fst store) \<Longrightarrow> distinct (map fst (audio_entries store))"
  by (simp add: audio_entries_def distinct_map_filter)


lemma sorted_tracks_distinct:
  assumes "distinct (map st_key T)"
  shows "distinct (map st_key (sort_key f T))"
proof -
  from assms have "distinct T" and "inj_on st_key (set T)"
    by (simp_all add: distinct_map)
  then show ?thesis
    by (simp add: distinct_map)
qed

lemma key_in_dropped:
  assumes "distinct (map st_key S)" and "t \<in> set S"
  shows "st_key t \<in> st_key ` set (drop n S) \<longleftrightarrow> t \<notin> set (take n S)"
proof -
  have "distinct (map st_key (take n S) @ map st_key (drop n S))"
    using assms(1) by (simp add: map_append [symmetric] del: map_append)
  then have disj: "st_key ` set (take n S) \<inter> st_key ` set (drop n S) = {}"
    by simp
  have "set S = set (take n S) \<union> set (drop n S)"
    using set_append [of "take n S" "drop n S"] by simp
  with assms(2) have cases: "t \<in> set (take n S) \<or> t \<in> set (drop n S)"
    by simp
  show ?thesis
  proof
    assume "st_key t \<in> st_key ` set (drop n S)"
    with disj show "t \<notin> set (take n S)"
      by auto
  next
    assume "t \<notin> set (take n S)"
    with cases show "st_key t \<in> st_key ` set (drop n S)"
      by auto
  qed
qed

lemma count_kept:
  assumes "distinct A" and "inj_on g (set A)" and "set K \<subseteq> g ` set A" and "distinct K"
  shows "length (filter (\<lambda>e. g e \<in> set K) A) = length K"
proof -
  let ?E = "{e. g e \<in> set K} \<inter> set A"
  have "length (filter (\<lambda>e. g e \<in> set K) A) = card ?E"
    using assms(1) by (rule distinct_length_filter)
  also have "card ?E = card (g ` ?E)"
    by (rule card_image [symmetric]) (rule inj_on_subset [OF assms(2)], simp)
  also have "g ` ?E = set K"
    using assms(3) by auto
  also have "card (set K) = length K"
    using assms(4) by (rule distinct_card)
  finally show ?thesis .
qed

lemma sorted_take_drop:
  assumes "k \<in> set (take n (sort_key f T))" and "d \<in> set (drop n (sort_key f T))"
  shows "f k \<le> f d"
proof -
  let ?S = "sort_key f T"
  have "sorted (map f (take n ?S) @ map f (drop n ?S))"
    using sorted_sort_key [of f T] by (simp add: map_append [symmetric] del: map_append)
  then have "\<forall>x\<in>set (map f (take n ?S)). \<forall>y\<in>set (map f (drop n ?S)). x \<le> y"
    by (simp add: sorted_append)
  with assms show ?thesis
    by simp
qed


lemma audio_after_clear:
  assumes "distinct (map fst store)"
    and "\<forall>e\<in>set (audio_entries store). readable (snd e)"
  shows "audio_entries (clearOldAudioData store)
           = filter (\<lambda>e. entry_track e \<in> set (take 5 (getAllSavedTracks store)))
               (audio_entries store)"
proof -
  let ?A = "audio_entries store"
  let ?S = "getAllSavedTracks store"
  have S: "?S = sort_key (\<lambda>t. - timestamp_or_0 t) (map entry_track ?A)"
    using assms by (rule tracks_readable)
  have keys: "map st_key (map entry_track ?A) = map fst ?A"
    by (simp add: entry_track_key)
  have dS: "distinct (map st_key ?S)"
    unfolding S
    by (rule sorted_tracks_distinct) (simp only: keys distinct_audio_keys [OF assms(1)])
  have "audio_entries (clearOldAudioData store)
          = filter (\<lambda>e. fst e \<notin> st_key ` set (drop 5 ?S)) ?A"
    by (simp add: clearOldAudioData_filter audio_entries_def conj_commute)
  also have "\<dots> = filter (\<lambda>e. entry_track e \<in> set (take 5 ?S)) ?A"
  proof (rule filter_cong [OF refl])
    fix e assume "e \<in> set ?A"
    then have "entry_track e \<in> set ?S"
      by (simp add: S)
    from key_in_dropped [OF dS this, of 5]
    show "(fst e \<notin> st_key ` set (drop 5 ?S)) = (entry_track e \<in> set (take 5 ?S))"
      by (simp add: entry_track_key)
  qed
  finally show ?thesis .
qed

text \<open>
  Claim C10, amended: in a store (distinct keys) whose \<open>n\<close> entries with a key starting
  with \<open>audio_\<close> all hold a string that parses to a truthy value without an own property
  \<open>key\<close>, after \<open>clearOldAudioData\<close> exactly \<open>min(n, 5)\<close> such entries remain. They are the
  entries of the first five tracks of \<open>getAllSavedTracks\<close>, unchanged, and no removed entry
  has a larger timestamp than a remaining one (a missing timestamp counts as 0). The
  entries with other keys are all kept.
\<close>

theorem clear_keeps_five_newest:
  assumes "distinct (map fst store)"
    and "\<forall>e\<in>set (audio_entries store). readable (snd e)"
  shows "length (audio_entries (clearOldAudioData store)) = min (length (audio_entries store)) 5
       \<and> fst ` set (audio_entries (clearOldAudioData store))
           = st_key ` set (take 5 (getAllSavedTracks store))
       \<and> set (audio_entries (clearOldAudioData store)) \<subseteq> set (audio_entries store)
       \<and> (\<forall>kept\<in>set (audio_entries (clearOldAudioData store)).
            \<forall>gone\<in>set (audio_entries store) - set (audio_entries (clearOldAudioData store)).
              stored_timestamp (snd gone) \<le> stored_timestamp (snd kept))
       \<and> filter (\<lambda>e. \<not> prefix ''audio_'' (fst e)) (clearOldAudioData store)
           = filter (\<lambda>e. \<not> prefix ''audio_'' (fst e)) store"
proof -
  let ?A = "audio_entries store"
  let ?S = "getAllSavedTracks store"
  let ?K = "take 5 ?S"
  let ?f = "\<lambda>t. - timestamp_or_0 t"
  have S: "?S = sort_key ?f (map entry_track ?A)"
    using assms by (rule tracks_readable)
  have after: "audio_entries (clearOldAudioData store) = filter (\<lambda>e. entry_track e \<in> set ?K) ?A"
    using assms by (rule audio_after_clear)
  have dA: "distinct (map fst ?A)"
    using assms(1) by (rule distinct_audio_keys)
  have keys: "map st_key (map entry_track ?A) = map fst ?A"
    by (simp add: entry_track_key)
  have setS: "set ?S = entry_track ` set ?A"
    by (simp add: S)
  have inj: "inj_on entry_track (set ?A)"
  proof (rule inj_onI)
    fix x y assume "x \<in> set ?A" "y \<in> set ?A" "entry_track x = entry_track y"
    then have "fst x = fst y"
      by (metis entry_track_key)
    with dA \<open>x \<in> set ?A\<close> \<open>y \<in> set ?A\<close> show "x = y"
      by (simp add: distinct_map inj_on_def)
  qed
  have dK: "distinct ?K"
  proof -
    have "distinct (map st_key ?S)"
      unfolding S by (rule sorted_tracks_distinct) (simp only: keys dA)
    then have "distinct ?S"
      by (simp add: distinct_map)
    then show ?thesis
      by simp
  qed
  have subK: "set ?K \<subseteq> entry_track ` set ?A"
    using set_take_subset [of 5 ?S] setS by simp
  have c1: "length (audio_entries (clearOldAudioData store)) = min (length ?A) 5"
  proof -
    have "length (filter (\<lambda>e. entry_track e \<in> set ?K) ?A) = length ?K"
      using dA inj subK dK by (intro count_kept) (simp_all add: distinct_map)
    also have "length ?K = min (length ?A) 5"
      by (simp add: S)
    finally show ?thesis
      by (simp add: after)
  qed
  have c2: "fst ` set (audio_entries (clearOldAudioData store)) = st_key ` set ?K"
  proof
    show "fst ` set (audio_entries (clearOldAudioData store)) \<subseteq> st_key ` set ?K"
    proof
      fix k assume "k \<in> fst ` set (audio_entries (clearOldAudioData store))"
      then obtain e where "entry_track e \<in> set ?K" and "k = fst e"
        by (auto simp add: after)
      then show "k \<in> st_key ` set ?K"
        by (metis entry_track_key imageI)
    qed
    show "st_key ` set ?K \<subseteq> fst ` set (audio_entries (clearOldAudioData store))"
    proof
      fix k assume "k \<in> st_key ` set ?K"
      then obtain t where t: "t \<in> set ?K" and k: "k = st_key t"
        by auto
      with subK obtain e where e: "e \<in> set ?A" and te: "t = entry_track e"
        by auto
      from e t te have "e \<in> set (audio_entries (clearOldAudioData store))"
        by (simp add: after)
      moreover have "k = fst e"
        by (simp add: k te entry_track_key)
      ultimately show "k \<in> fst ` set (audio_entries (clearOldAudioData store))"
        by (rule rev_image_eqI)
    qed
  qed
  have c3: "set (audio_entries (clearOldAudioData store)) \<subseteq> set ?A"
    by (simp add: after)
  have c4: "\<forall>kept\<in>set (audio_entries (clearOldAudioData store)).
            \<forall>gone\<in>set ?A - set (audio_entries (clearOldAudioData store)).
              stored_timestamp (snd gone) \<le> stored_timestamp (snd kept)"
  proof (intro ballI)
    fix kept gone
    assume kept: "kept \<in> set (audio_entries (clearOldAudioData store))"
      and gone: "gone \<in> set ?A - set (audio_entries (clearOldAudioData store))"
    from kept have k: "entry_track kept \<in> set (take 5 (sort_key ?f (map entry_track ?A)))"
      by (simp add: after S)
    from gone have "entry_track gone \<in> set ?S" and "entry_track gone \<notin> set ?K"
      by (simp_all add: after setS)
    moreover have "set ?S = set ?K \<union> set (drop 5 ?S)"
      using set_append [of ?K "drop 5 ?S"] by simp
    ultimately have g: "entry_track gone \<in> set (drop 5 (sort_key ?f (map entry_track ?A)))"
      by (simp add: S)
    from sorted_take_drop [OF k g]
    show "stored_timestamp (snd gone) \<le> stored_timestamp (snd kept)"
      by (simp add: entry_track_timestamp)
  qed
  have c5: "filter (\<lambda>e. \<not> prefix ''audio_'' (fst e)) (clearOldAudioData store)
              = filter (\<lambda>e. \<not> prefix ''audio_'' (fst e)) store"
  proof -
    have "filter (\<lambda>e. \<not> prefix ''audio_'' (fst e)) (clearOldAudioData store)
            = filter (\<lambda>e. fst e \<notin> st_key ` set (drop 5 ?S) \<and> \<not> prefix ''audio_'' (fst e)) store"
      by (simp add: clearOldAudioData_filter conj_commute)
    also have "\<dots> = filter (\<lambda>e. \<not> prefix ''audio_'' (fst e)) store"
    proof (rule filter_cong [OF refl])
      fix e assume "e \<in> set store"
      have "prefix ''audio_'' (fst e)" if "fst e \<in> st_key ` set (drop 5 ?S)"
      proof -
        from that obtain t where "t \<in> set (drop 5 ?S)" and "fst e = st_key t"
          by auto
        moreover have "set (drop 5 ?S) \<subseteq> set ?S"
          by (rule set_drop_subset)
        ultimately obtain e' where "e' \<in> set ?A" and "fst e = fst e'"
          using setS by (auto simp add: entry_track_key)
        then show ?thesis
          by (simp add: audio_entries_def)
      qed
      then show "(fst e \<notin> st_key ` set (drop 5 ?S) \<and> \<not> prefix ''audio_'' (fst e))
                   = (\<not> prefix ''audio_'' (fst e))"
        by blast
    qed
    finally show ?thesis .
  qed
  show ?thesis
    using c1 c2 c3 c4 c5 by blast
qed


lemma store6_unreadable: "getAllSavedTracks store6 = []"
  by (simp add: getAllSavedTracks_def store6_def loadFromLocalStorage_def getItem_def)

text \<open>
  Claim C10, as the code has it. \<open>getAllSavedTracks\<close> skips an entry whose value is the
  empty string, does not parse, or parses to a falsy value (\<open>if (data)\<close>): it is not
  among the tracks. The counterexample: in a store of six such entries under \<open>audio_\<close>
  keys there is no track to remove, and all six are still there afterwards, where the
  claim leaves five.
\<close>

theorem C10_counterexample:
  "length (audio_entries store6) = 6
   \<and> clearOldAudioData store6 = store6
   \<and> length (audio_entries (clearOldAudioData store6)) \<noteq> min (length (audio_entries store6)) 5"
proof -
  have a: "length (audio_entries store6) = 6"
    by (simp add: audio_entries_def store6_def)
  have b: "clearOldAudioData store6 = store6"
    by (simp add: clearOldAudioData_def store6_unreadable)
  show ?thesis
    by (simp add: a b)
qed

text \<open>
  The amended claim C10 at a store of seven readable \<open>audio_\<close> entries and one other
  entry: the five entries with the timestamps 70, 60, 50, 30 and 20 remain, those with
  the timestamp 10 and with no timestamp are removed.
\<close>

theorem clear_keeps_five_newest_witness:
  "distinct (map fst store7)
   \<and> list_all (\<lambda>e. readable (snd e)) (audio_entries store7)
   \<and> length (audio_entries store7) = 7
   \<and> length (audio_entries (clearOldAudioData store7)) = 5
   \<and> fst ` set (audio_entries (clearOldAudioData store7))
       = {''audio_b'', ''audio_g'', ''audio_e'', ''audio_d'', ''audio_f''}"
proof -
  have d: "distinct (map fst store7)"
    by (simp add: store7_def)
  have r: "\<forall>e\<in>set (audio_entries store7). readable (snd e)"
    by (simp add: store7_def audio_entries_def readable_def)
  have n: "length (audio_entries store7) = 7"
    by (simp add: store7_def audio_entries_def)
  have t: "map st_key (take 5 (getAllSavedTracks store7))
             = [''audio_b'', ''audio_g'', ''audio_e'', ''audio_d'', ''audio_f'']"
    by (simp add: tracks_readable [OF d r])
       (simp add: store7_def audio_entries_def entry_track_def timestamp_or_0_def)
  have "st_key ` set (take 5 (getAllSavedTracks store7))
          = set (map st_key (take 5 (getAllSavedTracks store7)))"
    by simp
  also have "\<dots> = {''audio_b'', ''audio_g'', ''audio_e'', ''audio_d'', ''audio_f''}"
    by (simp only: t) simp
  finally have k: "st_key ` set (take 5 (getAllSavedTracks store7))
                     = {''audio_b'', ''audio_g'', ''audio_e'', ''audio_d'', ''audio_f''}" .
  show ?thesis
    using clear_keeps_five_newest [OF d r] d r n k by (simp add: list_all_iff)
qed

end
